theory Spec2Isabelle
  imports Main "HOL-Library.Sublist"
begin

section \<open>Go strings, runes and the library functions used by main.go\<close>

text \<open>
  A Go string is a sequence of bytes; \<^typ>\<open>string\<close> (a list of 8-bit characters)
  is exactly that. A rune is an int32 holding a code point; every rune of this program
  comes out of UTF-8 decoding and lies in 0..0x10FFFF, so runes are natural numbers.
\<close>

type_synonym rune = nat

text \<open>The one run-time panic main.go can raise in these functions: an index out of range.\<close>

datatype panic = IndexOutOfRange

subsection \<open>Package unicode\<close>

text \<open>
  The tables of package unicode are not part of the repository. The general category of
  an ASCII code point and of U+FFFD is written out; for every other code point it is
  read from a table that is a parameter of the model. \<open>ToLower_ext\<close> is
  strings.ToLower on a string holding a byte \<open>\<ge> 0x80\<close> (strings.Map over
  unicode.ToLower, again table driven).
\<close>

datatype category = Lu | Ll | Nd | OtherCategory

record unicode_tables =
  category_ext :: "rune \<Rightarrow> category"
  ToLower_ext :: "string \<Rightarrow> string"

definition RuneError :: rune where
  "RuneError = 0xFFFD"

definition unicode_category :: "unicode_tables \<Rightarrow> rune \<Rightarrow> category" where
  "unicode_category T r =
     (if r < 0x80 then
        (if 0x41 \<le> r \<and> r \<le> 0x5A then Lu
         else if 0x61 \<le> r \<and> r \<le> 0x7A then Ll
         else if 0x30 \<le> r \<and> r \<le> 0x39 then Nd
         else OtherCategory)
      else if r = RuneError then OtherCategory
      else category_ext T r)"

definition IsUpper :: "unicode_tables \<Rightarrow> rune \<Rightarrow> bool" where
  "IsUpper T r = (unicode_category T r = Lu)"

definition IsLower :: "unicode_tables \<Rightarrow> rune \<Rightarrow> bool" where
  "IsLower T r = (unicode_category T r = Ll)"

definition IsDigit :: "unicode_tables \<Rightarrow> rune \<Rightarrow> bool" where
  "IsDigit T r = (unicode_category T r = Nd)"

subsection \<open>Package unicode/utf8\<close>

text \<open>
  \<open>utf8_first\<close> is the table \<open>first\<close> of package utf8 joined with
  \<open>acceptRanges\<close>: for a leading byte, the length of the sequence and the range
  allowed for its second byte; \<open>None\<close> for a byte that cannot lead a multi-byte
  sequence.
\<close>

definition utf8_first :: "nat \<Rightarrow> (nat \<times> nat \<times> nat) option" where
  "utf8_first b =
     (if 0xC2 \<le> b \<and> b \<le> 0xDF then Some (2, 0x80, 0xBF)
      else if b = 0xE0 then Some (3, 0xA0, 0xBF)
      else if 0xE1 \<le> b \<and> b \<le> 0xEC then Some (3, 0x80, 0xBF)
      else if b = 0xED then Some (3, 0x80, 0x9F)
      else if 0xEE \<le> b \<and> b \<le> 0xEF then Some (3, 0x80, 0xBF)
      else if b = 0xF0 then Some (4, 0x90, 0xBF)
      else if 0xF1 \<le> b \<and> b \<le> 0xF3 then Some (4, 0x80, 0xBF)
      else if b = 0xF4 then Some (4, 0x80, 0x8F)
      else None)"

text \<open>
  utf8.DecodeRuneInString: the rune at the head of the string and its width in bytes;
  (RuneError, 0) on the empty string and (RuneError, 1) on an invalid encoding. The
  shifts and masks of the Go code are written as multiplication and \<open>mod\<close>.
\<close>

definition DecodeRuneInString :: "string \<Rightarrow> rune \<times> nat" where
  "DecodeRuneInString s =
     (case s of
        [] \<Rightarrow> (RuneError, 0)
      | c0 # t \<Rightarrow>
          (let s0 = (of_char c0 :: nat) in
           if s0 < 0x80 then (s0, 1)
           else
             (case utf8_first s0 of
                None \<Rightarrow> (RuneError, 1)
              | Some (sz, lo, hi) \<Rightarrow>
                  if length s < sz then (RuneError, 1)
                  else
                    (let s1 = (of_char (s ! 1) :: nat) in
                     if s1 < lo \<or> hi < s1 then (RuneError, 1)
                     else if sz \<le> 2 then ((s0 mod 32) * 64 + s1 mod 64, 2)
                     else
                       (let s2 = (of_char (s ! 2) :: nat) in
                        if s2 < 0x80 \<or> 0xBF < s2 then (RuneError, 1)
                        else if sz \<le> 3 then
                          ((s0 mod 16) * 4096 + (s1 mod 64) * 64 + s2 mod 64, 3)
                        else
                          (let s3 = (of_char (s ! 3) :: nat) in
                           if s3 < 0x80 \<or> 0xBF < s3 then (RuneError, 1)
                           else
                             ((s0 mod 8) * 262144 + (s1 mod 64) * 4096
                                + (s2 mod 64) * 64 + s3 mod 64, 4)))))))"

text \<open>The width is positive on a non-empty string and never runs past its end.\<close>

lemma utf8_first_size:
  "utf8_first b = Some (sz, lo, hi) \<Longrightarrow> sz = 2 \<or> sz = 3 \<or> sz = 4"
  by (simp add: utf8_first_def split: if_splits)

lemma DecodeRuneInString_width:
  assumes "s \<noteq> []"
  shows "1 \<le> snd (DecodeRuneInString s) \<and> snd (DecodeRuneInString s) \<le> length s"
proof -
  from assms obtain c0 t where s: "s = c0 # t" by (cases s) auto
  show ?thesis
  proof (cases "(of_char c0 :: nat) < 0x80")
    case True
    then show ?thesis by (simp add: s DecodeRuneInString_def)
  next
    case ascii: False
    show ?thesis
    proof (cases "utf8_first (of_char c0)")
      case None
      with ascii show ?thesis by (simp add: s DecodeRuneInString_def)
    next
      case (Some p)
      then obtain sz lo hi where p: "utf8_first (of_char c0) = Some (sz, lo, hi)"
        by (cases p) auto
      from utf8_first_size [OF p] consider "sz = 2" | "sz = 3" | "sz = 4" by blast
      then show ?thesis
      proof cases
        case 1
        with ascii p show ?thesis
          by (simp add: s DecodeRuneInString_def Let_def Suc_le_eq)
      next
        case 2
        with ascii p show ?thesis
          by (simp add: s DecodeRuneInString_def Let_def Suc_le_eq)
      next
        case 3
        with ascii p show ?thesis
          by (simp add: s DecodeRuneInString_def Let_def Suc_le_eq)
      qed
    qed
  qed
qed

text \<open>\<open>for _, r := range src\<close>: the runes of a string, decoded one after the other.\<close>

function range_string :: "string \<Rightarrow> rune list" where
  "range_string s =
     (if s = [] then []
      else fst (DecodeRuneInString s) # range_string (drop (snd (DecodeRuneInString s)) s))"
  by pat_completeness auto
termination
proof (relation "measure length")
  show "wf (measure length)" by simp
next
  fix s :: string
  assume "s \<noteq> []"
  then show "(drop (snd (DecodeRuneInString s)) s, s) \<in> measure length"
    using DecodeRuneInString_width [of s] by simp
qed

text \<open>utf8.ValidString: no decoding step of the string reports an invalid encoding.\<close>

function ValidString :: "string \<Rightarrow> bool" where
  "ValidString s =
     (if s = [] then True
      else if DecodeRuneInString s = (RuneError, 1) then False
      else ValidString (drop (snd (DecodeRuneInString s)) s))"
  by pat_completeness auto
termination
proof (relation "measure length")
  show "wf (measure length)" by simp
next
  fix s :: string
  assume "s \<noteq> []"
  then show "(drop (snd (DecodeRuneInString s)) s, s) \<in> measure length"
    using DecodeRuneInString_width [of s] by simp
qed

text \<open>
  The conversion \<open>string(rs)\<close> of a rune slice: every rune in its UTF-8 encoding, a
  surrogate or a rune above 0x10FFFF as the encoding of U+FFFD.
\<close>

definition EncodeRune :: "rune \<Rightarrow> string" where
  "EncodeRune r =
     (if r \<le> 0x7F then [char_of r]
      else if r \<le> 0x7FF then [char_of (0xC0 + r div 64), char_of (0x80 + r mod 64)]
      else if 0x10FFFF < r \<or> (0xD800 \<le> r \<and> r \<le> 0xDFFF) then
        [char_of (0xEF :: nat), char_of (0xBF :: nat), char_of (0xBD :: nat)]
      else if r \<le> 0xFFFF then
        [char_of (0xE0 + r div 4096), char_of (0x80 + (r div 64) mod 64),
         char_of (0x80 + r mod 64)]
      else
        [char_of (0xF0 + r div 262144), char_of (0x80 + (r div 4096) mod 64),
         char_of (0x80 + (r div 64) mod 64), char_of (0x80 + r mod 64)])"

definition string_of_runes :: "rune list \<Rightarrow> string" where
  "string_of_runes rs = concat (map EncodeRune rs)"

subsection \<open>Package strings\<close>

definition strings_HasPrefix :: "string \<Rightarrow> string \<Rightarrow> bool" where
  "strings_HasPrefix s p = (length p \<le> length s \<and> take (length p) s = p)"

definition strings_TrimPrefix :: "string \<Rightarrow> string \<Rightarrow> string" where
  "strings_TrimPrefix s p = (if strings_HasPrefix s p then drop (length p) s else s)"

fun strings_Join :: "string list \<Rightarrow> string \<Rightarrow> string" where
  "strings_Join [] sep = []"
| "strings_Join [a] sep = a"
| "strings_Join (a # b # rest) sep = a @ sep @ strings_Join (b # rest) sep"

text \<open>
  strings.ToLower: on a string of ASCII bytes the letters A..Z are moved to a..z; any
  other string goes through the tables.
\<close>

definition ascii_lower :: "char \<Rightarrow> char" where
  "ascii_lower c =
     (if 0x41 \<le> (of_char c :: nat) \<and> (of_char c :: nat) \<le> 0x5A
      then char_of ((of_char c :: nat) + 0x20) else c)"

definition strings_ToLower :: "unicode_tables \<Rightarrow> string \<Rightarrow> string" where
  "strings_ToLower T s =
     (if list_all (\<lambda>c. (of_char c :: nat) < 0x80) s then map ascii_lower s
      else ToLower_ext T s)"

section \<open>main.go\<close>

subsection \<open>Split\<close>

text \<open>The \<open>switch\<close> of the first loop: the class of a rune, 1 to 4.\<close>

definition rune_class :: "unicode_tables \<Rightarrow> rune \<Rightarrow> nat" where
  "rune_class T r =
     (if IsLower T r then 1
      else if IsUpper T r then 2
      else if IsDigit T r then 3
      else 4)"

text \<open>
  The first loop of Split, over the runes still to read, with the slice \<open>runes\<close> and
  \<open>lastClass\<close> as its state. \<open>runes[len(runes)-1]\<close> panics on an empty slice.
\<close>

fun split_fields ::
  "unicode_tables \<Rightarrow> rune list \<Rightarrow> rune list list \<Rightarrow> nat \<Rightarrow> panic + rune list list" where
  "split_fields T [] runes lastClass = Inr runes"
| "split_fields T (r # rs) runes lastClass =
     (if rune_class T r = lastClass then
        (if runes = [] then Inl IndexOutOfRange
         else split_fields T rs
                (runes[length runes - 1 := runes ! (length runes - 1) @ [r]])
                (rune_class T r))
      else split_fields T rs (runes @ [[r]]) (rune_class T r))"

text \<open>
  The second loop of Split, from index \<open>i\<close>. The condition reads \<open>runes[i][0]\<close>
  and, only when that rune is upper case, \<open>runes[i+1][0]\<close>; either read panics on an
  empty fragment. The body first stores the enlarged \<open>runes[i+1]\<close>, then the shortened
  \<open>runes[i]\<close>.
\<close>

function split_upper_lower ::
  "unicode_tables \<Rightarrow> nat \<Rightarrow> rune list list \<Rightarrow> panic + rune list list" where
  "split_upper_lower T i runes =
     (if i + 1 < length runes then
        (if runes ! i = [] then Inl IndexOutOfRange
         else if IsUpper T (hd (runes ! i)) then
           (if runes ! (i + 1) = [] then Inl IndexOutOfRange
            else if IsLower T (hd (runes ! (i + 1))) then
              split_upper_lower T (i + 1)
                (runes[i + 1 := last (runes ! i) # runes ! (i + 1),
                       i := butlast (runes ! i)])
            else split_upper_lower T (i + 1) runes)
         else split_upper_lower T (i + 1) runes)
      else Inr runes)"
  by pat_completeness auto
termination
  by (relation "measure (\<lambda>(T, i, runes). length runes - i)") auto

text \<open>The third loop of Split: the non-empty fragments, each converted to a string.\<close>

definition split_entries :: "rune list list \<Rightarrow> string list" where
  "split_entries runes = map string_of_runes (filter (\<lambda>s. 0 < length s) runes)"

definition Split :: "unicode_tables \<Rightarrow> string \<Rightarrow> panic + string list" where
  "Split T src =
     (if \<not> ValidString src then Inr [src]
      else
        (case split_fields T (range_string src) [] 0 of
           Inl e \<Rightarrow> Inl e
         | Inr runes \<Rightarrow>
             (case split_upper_lower T 0 runes of
                Inl e \<Rightarrow> Inl e
              | Inr runes' \<Rightarrow> Inr (split_entries runes'))))"

subsection \<open>mockDoc, trimPrefix, containsGoDoc\<close>

definition mockDoc :: "unicode_tables \<Rightarrow> string \<Rightarrow> panic + string" where
  "mockDoc T name =
     (case Split T name of
        Inl e \<Rightarrow> Inl e
      | Inr results \<Rightarrow> Inr (strings_Join (map (strings_ToLower T) results) '' ''))"

text \<open>The slice \<open>cases\<close> of trimPrefix, in the order of the source.\<close>

definition trimPrefix_cases :: "string \<Rightarrow> string list" where
  "trimPrefix_cases name =
     [''//'' @ name @ '' '',
      ''// '' @ name @ '': '',
      ''// '' @ name @ '':'',
      ''//'' @ name @ '': '',
      ''//'' @ name @ '':'',
      ''// '',
      ''//'']"

text \<open>The loop of trimPrefix over the cases still to try.\<close>

fun trimPrefix_loop :: "string \<Rightarrow> string list \<Rightarrow> string" where
  "trimPrefix_loop doc [] = doc"
| "trimPrefix_loop doc (c # cs) =
     (if strings_HasPrefix doc c then strings_TrimPrefix doc c else trimPrefix_loop doc cs)"

definition trimPrefix :: "string \<Rightarrow> string \<Rightarrow> string" where
  "trimPrefix doc name = trimPrefix_loop doc (trimPrefix_cases name)"

text \<open>containsGoDoc returns (empty, emptyName, justName).\<close>

definition containsGoDoc :: "string list \<Rightarrow> string \<Rightarrow> bool \<times> bool \<times> bool" where
  "containsGoDoc decs name =
     (case decs of
        [] \<Rightarrow> (True, False, False)
      | first # _ \<Rightarrow>
          if first = ''// '' @ name \<or> first = ''//'' @ name then (False, False, True)
          else if \<not> strings_HasPrefix first (''// '' @ name @ '' '') then (False, True, False)
          else (False, False, False))"

subsection \<open>autoDecl\<close>

text \<open>
  The package variables set from the command line. \<open>codePath\<close> is read by main
  only.
\<close>

record flags =
  commentFormat :: string
  autoDescription :: bool

definition defaultCommentFormat :: string where
  "defaultCommentFormat = ''// %s missing godoc.''"

record ident =
  Name :: string

text \<open>token.IsExported, which dst.Ident.IsExported calls on the name.\<close>

definition IsExported :: "unicode_tables \<Rightarrow> ident \<Rightarrow> bool" where
  "IsExported T ident = IsUpper T (fst (DecodeRuneInString (Name ident)))"

text \<open>
  \<open>doc\<close> as autoDecl computes it: \<open>fmt.Sprintf(defaultCommentFormat, ident.Name)\<close>,
  replaced under autoDescription by \<open>fmt.Sprintf("// %s %s", ident.Name, mockDoc(ident.Name))\<close>.
  The variable \<open>commentFormat\<close> is not read.
\<close>

definition autoDecl_doc :: "unicode_tables \<Rightarrow> flags \<Rightarrow> ident \<Rightarrow> panic + string" where
  "autoDecl_doc T fl ident =
     (if autoDescription fl then
        (case mockDoc T (Name ident) of
           Inl e \<Rightarrow> Inl e
         | Inr d \<Rightarrow> Inr (''// '' @ Name ident @ '' '' @ d))
      else Inr (''// '' @ Name ident @ '' missing godoc.''))"

text \<open>
  dst.Decorations is a slice of strings: Prepend puts a line in front, All returns the
  slice, Replace stores a copy of its arguments. \<open>all[0]\<close> panics on an empty slice.
\<close>

definition autoDecl ::
  "unicode_tables \<Rightarrow> flags \<Rightarrow> ident \<Rightarrow> string list \<Rightarrow> panic + string list" where
  "autoDecl T fl ident decorations =
     (if \<not> IsExported T ident then Inr decorations
      else
        (case autoDecl_doc T fl ident of
           Inl e \<Rightarrow> Inl e
         | Inr doc \<Rightarrow>
             (case containsGoDoc decorations (Name ident) of
                (empty', emptyName, justName) \<Rightarrow>
                  (let d1 = (if empty' then doc # decorations else decorations) in
                   (case (if emptyName then
                            (case d1 of
                               [] \<Rightarrow> Inl IndexOutOfRange
                             | first # _ \<Rightarrow>
                                 Inr (d1[0 := ''// '' @ Name ident @ '' ''
                                                @ trimPrefix first (Name ident)]))
                          else Inr d1) of
                      Inl e \<Rightarrow> Inl e
                    | Inr d2 \<Rightarrow>
                        (if justName then
                           (case d2 of
                              [] \<Rightarrow> Inl IndexOutOfRange
                            | _ # _ \<Rightarrow> Inr (d2[0 := doc]))
                         else Inr d2))))))"

text \<open>
  Values for evaluating the model: the flags as \<open>init\<close> leaves them when no option
  is given, and tables that hold no letter or digit outside ASCII and map every
  non-ASCII string to itself. No table is read on ASCII input.
\<close>

definition default_flags :: flags where
  "default_flags = \<lparr>commentFormat = defaultCommentFormat, autoDescription = False\<rparr>"

definition ascii_tables :: unicode_tables where
  "ascii_tables = \<lparr>category_ext = (\<lambda>r. OtherCategory), ToLower_ext = (\<lambda>s. s)\<rparr>"

section \<open>The disambiguation pass in the words of the specification\<close>

text \<open>
  The specification describes the second loop of Split on the fragments as the first loop
  left them: a fragment pair moves when the left fragment is composed of upper-case
  letters and the right fragment begins with a lower-case letter; the left fragment then
  loses its last rune and the right fragment gains it in front. These definitions follow
  that wording and read the original fragments only.
\<close>

definition begins_lower :: "unicode_tables \<Rightarrow> rune list \<Rightarrow> bool" where
  "begins_lower T f = (case f of [] \<Rightarrow> False | r # _ \<Rightarrow> IsLower T r)"

definition composed_upper :: "unicode_tables \<Rightarrow> rune list \<Rightarrow> bool" where
  "composed_upper T f = (f \<noteq> [] \<and> list_all (IsUpper T) f)"

definition spec_moves :: "unicode_tables \<Rightarrow> rune list list \<Rightarrow> nat \<Rightarrow> bool" where
  "spec_moves T fs i =
     (i + 1 < length fs \<and> composed_upper T (fs ! i) \<and> begins_lower T (fs ! (i + 1)))"

definition spec_carry :: "unicode_tables \<Rightarrow> rune list list \<Rightarrow> nat \<Rightarrow> rune list" where
  "spec_carry T fs i = (if 0 < i \<and> spec_moves T fs (i - 1) then [last (fs ! (i - 1))] else [])"

definition spec_fragment :: "unicode_tables \<Rightarrow> rune list list \<Rightarrow> nat \<Rightarrow> rune list" where
  "spec_fragment T fs i =
     spec_carry T fs i @ (if spec_moves T fs i then butlast (fs ! i) else fs ! i)"

definition spec_disambiguation :: "unicode_tables \<Rightarrow> rune list list \<Rightarrow> rune list list" where
  "spec_disambiguation T fs = map (spec_fragment T fs) [0..<length fs]"

text \<open>
  What the first loop establishes: every fragment is non-empty and of one class, and
  neighbouring fragments differ in class.
\<close>

definition fields_inv :: "unicode_tables \<Rightarrow> rune list list \<Rightarrow> bool" where
  "fields_inv T fs \<longleftrightarrow>
     (\<forall>i<length fs. fs ! i \<noteq> [] \<and> (\<forall>r\<in>set (fs ! i). rune_class T r = rune_class T (hd (fs ! i)))) \<and>
     (\<forall>i. Suc i < length fs \<longrightarrow> rune_class T (hd (fs ! i)) \<noteq> rune_class T (hd (fs ! Suc i)))"

declare range_string.simps [simp del] ValidString.simps [simp del]
  split_upper_lower.simps [simp del]

section \<open>UTF-8: encoding what was decoded\<close>

lemma mod_offset:
  fixes a :: nat
  assumes "q * m \<le> a" "a < q * m + m"
  shows "a mod m = a - q * m"
proof -
  define k where "k = a - q * m"
  from assms have a: "a = q * m + k" and k: "k < m" by (simp_all add: k_def)
  have "(q * m + k) mod m = k" using k by simp
  with a show ?thesis by (simp add: k_def)
qed

lemma m32: fixes a :: nat shows "192 \<le> a \<Longrightarrow> a < 224 \<Longrightarrow> a mod 32 = a - 192"
  using mod_offset [of 6 32 a] by simp
lemma m16: fixes a :: nat shows "224 \<le> a \<Longrightarrow> a < 240 \<Longrightarrow> a mod 16 = a - 224"
  using mod_offset [of 14 16 a] by simp
lemma m8: fixes a :: nat shows "240 \<le> a \<Longrightarrow> a < 248 \<Longrightarrow> a mod 8 = a - 240"
  using mod_offset [of 30 8 a] by simp
lemma m64: fixes a :: nat shows "128 \<le> a \<Longrightarrow> a < 192 \<Longrightarrow> a mod 64 = a - 128"
  using mod_offset [of 2 64 a] by simp

lemma div_mod_step:
  fixes q k m :: nat
  assumes "k < m"
  shows "(q * m + k) div m = q" "(q * m + k) mod m = k"
  using assms by simp_all

lemma div_mod_2:
  fixes a' b' :: nat
  assumes b: "b' < 64"
  shows "(a' * 64 + b') div 64 = a'" "(a' * 64 + b') mod 64 = b'"
  using div_mod_step [OF b, of a'] by simp_all

lemma div_mod_3:
  fixes a' b' c' :: nat
  assumes b: "b' < 64" and c: "c' < 64"
  shows "(a' * 4096 + b' * 64 + c') div 4096 = a'"
    "((a' * 4096 + b' * 64 + c') div 64) mod 64 = b'"
    "(a' * 4096 + b' * 64 + c') mod 64 = c'"
proof -
  define r where "r = a' * 4096 + b' * 64 + c'"
  have r1: "r = (a' * 64 + b') * 64 + c'" by (simp add: r_def)
  have d1: "r div 64 = a' * 64 + b'" and m1: "r mod 64 = c'"
    unfolding r1 by (rule div_mod_step [OF c])+
  have m2: "(r div 64) mod 64 = b'" unfolding d1 by (rule div_mod_step [OF b])
  have "b' * 64 + c' < 4096" using b c by simp
  moreover have "r = a' * 4096 + (b' * 64 + c')" by (simp add: r_def)
  ultimately have d3: "r div 4096 = a'" using div_mod_step(1) [of "b' * 64 + c'" 4096 a'] by simp
  show "(a' * 4096 + b' * 64 + c') div 4096 = a'"
    "((a' * 4096 + b' * 64 + c') div 64) mod 64 = b'"
    "(a' * 4096 + b' * 64 + c') mod 64 = c'"
    using d3 m2 m1 unfolding r_def .
qed

lemma div_mod_4:
  fixes a' b' c' d' :: nat
  assumes b: "b' < 64" and c: "c' < 64" and d: "d' < 64"
  shows "(a' * 262144 + b' * 4096 + c' * 64 + d') div 262144 = a'"
    "((a' * 262144 + b' * 4096 + c' * 64 + d') div 4096) mod 64 = b'"
    "((a' * 262144 + b' * 4096 + c' * 64 + d') div 64) mod 64 = c'"
    "(a' * 262144 + b' * 4096 + c' * 64 + d') mod 64 = d'"
proof -
  define r where "r = a' * 262144 + b' * 4096 + c' * 64 + d'"
  have r1: "r = ((a' * 64 + b') * 64 + c') * 64 + d'" by (simp add: r_def)
  have d1: "r div 64 = (a' * 64 + b') * 64 + c'" and m1: "r mod 64 = d'"
    unfolding r1 by (rule div_mod_step [OF d])+
  have m2: "(r div 64) mod 64 = c'" unfolding d1 by (rule div_mod_step [OF c])
  have "c' * 64 + d' < 4096" using c d by simp
  moreover have "r = (a' * 64 + b') * 4096 + (c' * 64 + d')" by (simp add: r_def)
  ultimately have d2: "r div 4096 = a' * 64 + b'"
    using div_mod_step(1) [of "c' * 64 + d'" 4096 "a' * 64 + b'"] by simp
  have m3: "(r div 4096) mod 64 = b'" unfolding d2 by (rule div_mod_step [OF b])
  have "b' * 4096 + c' * 64 + d' < 262144" using b c d by simp
  moreover have "r = a' * 262144 + (b' * 4096 + c' * 64 + d')" by (simp add: r_def)
  ultimately have d4: "r div 262144 = a'"
    using div_mod_step(1) [of "b' * 4096 + c' * 64 + d'" 262144 a'] by simp
  show "(a' * 262144 + b' * 4096 + c' * 64 + d') div 262144 = a'"
    "((a' * 262144 + b' * 4096 + c' * 64 + d') div 4096) mod 64 = b'"
    "((a' * 262144 + b' * 4096 + c' * 64 + d') div 64) mod 64 = c'"
    "(a' * 262144 + b' * 4096 + c' * 64 + d') mod 64 = d'"
    using d4 m3 m2 m1 unfolding r_def .
qed


lemma EncodeRune_2:
  fixes a b :: nat
  assumes a: "0xC2 \<le> a" "a \<le> 0xDF" and b: "0x80 \<le> b" "b \<le> 0xBF"
  shows "EncodeRune ((a mod 32) * 64 + b mod 64) = [char_of a, char_of b]"
proof -
  define a' b' where "a' = a - 192" and "b' = b - 128"
  have a': "a = 192 + a'" "2 \<le> a'" "a' < 32" and b': "b = 128 + b'" "b' < 64"
    using a b by (simp_all add: a'_def b'_def)
  have ma: "a mod 32 = a'" using m32 [of a] a by (simp add: a'_def)
  have mb: "b mod 64 = b'" using m64 [of b] b by (simp add: b'_def)
  define r where "r = a' * 64 + b'"
  have lo: "\<not> r \<le> 0x7F" and hi: "r \<le> 0x7FF"
    using a' b' by (simp_all add: r_def)
  have "EncodeRune r = [char_of (0xC0 + r div 64), char_of (0x80 + r mod 64)]"
    using lo hi by (simp add: EncodeRune_def)
  also have "r div 64 = a'" unfolding r_def by (rule div_mod_2 [OF b'(2)])
  also have "r mod 64 = b'" unfolding r_def by (rule div_mod_2 [OF b'(2)])
  finally have "EncodeRune r = [char_of a, char_of b]" by (simp add: a'(1) b'(1))
  then show ?thesis unfolding ma mb r_def .
qed

lemma EncodeRune_3:
  fixes a b c :: nat
  assumes a: "0xE0 \<le> a" "a \<le> 0xEF" and b: "0x80 \<le> b" "b \<le> 0xBF"
    and c: "0x80 \<le> c" "c \<le> 0xBF"
    and e0: "a = 0xE0 \<Longrightarrow> 0xA0 \<le> b" and ed: "a = 0xED \<Longrightarrow> b \<le> 0x9F"
  shows "EncodeRune ((a mod 16) * 4096 + (b mod 64) * 64 + c mod 64)
           = [char_of a, char_of b, char_of c]"
proof -
  define a' b' c' where "a' = a - 224" and "b' = b - 128" and "c' = c - 128"
  have a': "a = 224 + a'" "a' < 16" and b': "b = 128 + b'" "b' < 64"
    and c': "c = 128 + c'" "c' < 64"
    using a b c by (simp_all add: a'_def b'_def c'_def)
  have e0': "a' = 0 \<Longrightarrow> 32 \<le> b'" using e0 a'(1) b'(1) by simp
  have ed': "a' = 13 \<Longrightarrow> b' < 32" using ed a'(1) b'(1) by simp
  have ma: "a mod 16 = a'" using m16 [of a] a by (simp add: a'_def)
  have mb: "b mod 64 = b'" using m64 [of b] b by (simp add: b'_def)
  have mc: "c mod 64 = c'" using m64 [of c] c by (simp add: c'_def)
  define r where "r = a' * 4096 + b' * 64 + c'"
  have lo: "\<not> r \<le> 0x7FF"
  proof (cases "a' = 0")
    case True
    with e0' show ?thesis by (simp add: r_def)
  next
    case False
    then have "1 \<le> a'" by simp
    then have "4096 \<le> a' * 4096" by simp
    then show ?thesis by (simp add: r_def)
  qed
  have hi: "r \<le> 0xFFFF" using a'(2) b'(2) c'(2) by (simp add: r_def)
  have sur: "\<not> (0xD800 \<le> r \<and> r \<le> 0xDFFF)"
  proof -
    consider "a' \<le> 12" | "a' = 13" | "14 \<le> a'" by linarith
    then show ?thesis
    proof cases
      case 1
      then have "a' * 4096 \<le> 12 * 4096" by simp
      then show ?thesis using b'(2) c'(2) by (simp add: r_def)
    next
      case 2
      with ed' b'(2) c'(2) show ?thesis by (simp add: r_def)
    next
      case 3
      then have "14 * 4096 \<le> a' * 4096" by simp
      then show ?thesis by (simp add: r_def)
    qed
  qed
  have l1: "(r \<le> 0x7F) = False" and l2: "(r \<le> 0x7FF) = False"
    and l3: "(0x10FFFF < r \<or> (0xD800 \<le> r \<and> r \<le> 0xDFFF)) = False"
    and l4: "(r \<le> 0xFFFF) = True"
    using lo hi sur by simp_all
  have "EncodeRune r = [char_of (0xE0 + r div 4096), char_of (0x80 + (r div 64) mod 64),
         char_of (0x80 + r mod 64)]"
    by (simp only: EncodeRune_def l1 l2 l3 l4 if_False if_True)
  also have "r div 4096 = a'" unfolding r_def by (rule div_mod_3 [OF b'(2) c'(2)])
  also have "(r div 64) mod 64 = b'" unfolding r_def by (rule div_mod_3 [OF b'(2) c'(2)])
  also have "r mod 64 = c'" unfolding r_def by (rule div_mod_3 [OF b'(2) c'(2)])
  finally have "EncodeRune r = [char_of a, char_of b, char_of c]"
    by (simp add: a'(1) b'(1) c'(1))
  then show ?thesis unfolding ma mb mc r_def .
qed

lemma EncodeRune_4:
  fixes a b c d :: nat
  assumes a: "0xF0 \<le> a" "a \<le> 0xF4" and b: "0x80 \<le> b" "b \<le> 0xBF"
    and c: "0x80 \<le> c" "c \<le> 0xBF" and d: "0x80 \<le> d" "d \<le> 0xBF"
    and f0: "a = 0xF0 \<Longrightarrow> 0x90 \<le> b" and f4: "a = 0xF4 \<Longrightarrow> b \<le> 0x8F"
  shows "EncodeRune ((a mod 8) * 262144 + (b mod 64) * 4096 + (c mod 64) * 64 + d mod 64)
           = [char_of a, char_of b, char_of c, char_of d]"
proof -
  define a' b' c' d' where "a' = a - 240" and "b' = b - 128" and "c' = c - 128"
    and "d' = d - 128"
  have a': "a = 240 + a'" "a' \<le> 4" and b': "b = 128 + b'" "b' < 64"
    and c': "c = 128 + c'" "c' < 64" and d': "d = 128 + d'" "d' < 64"
    using a b c d by (simp_all add: a'_def b'_def c'_def d'_def)
  have f0': "a' = 0 \<Longrightarrow> 16 \<le> b'" using f0 a'(1) b'(1) by simp
  have f4': "a' = 4 \<Longrightarrow> b' < 16" using f4 a'(1) b'(1) by simp
  have ma: "a mod 8 = a'" using m8 [of a] a by (simp add: a'_def)
  have mb: "b mod 64 = b'" using m64 [of b] b by (simp add: b'_def)
  have mc: "c mod 64 = c'" using m64 [of c] c by (simp add: c'_def)
  have md: "d mod 64 = d'" using m64 [of d] d by (simp add: d'_def)
  define r where "r = a' * 262144 + b' * 4096 + c' * 64 + d'"
  have lo: "\<not> r \<le> 0xFFFF"
  proof (cases "a' = 0")
    case True
    with f0' have "16 * 4096 \<le> b' * 4096" by simp
    then show ?thesis by (simp add: r_def)
  next
    case False
    then have "1 \<le> a'" by simp
    then have "262144 \<le> a' * 262144" by simp
    then show ?thesis by (simp add: r_def)
  qed
  have max: "\<not> 0x10FFFF < r"
  proof (cases "a' = 4")
    case True
    with f4' have "b' * 4096 \<le> 15 * 4096" by simp
    with True c'(2) d'(2) show ?thesis by (simp add: r_def)
  next
    case False
    with a'(2) have "a' \<le> 3" by simp
    then have "a' * 262144 \<le> 3 * 262144" by simp
    moreover have "b' * 4096 \<le> 63 * 4096" using b'(2) by simp
    ultimately show ?thesis using c'(2) d'(2) by (simp add: r_def)
  qed
  have l1: "(r \<le> 0x7F) = False" and l2: "(r \<le> 0x7FF) = False"
    and l3: "(0x10FFFF < r \<or> (0xD800 \<le> r \<and> r \<le> 0xDFFF)) = False"
    and l4: "(r \<le> 0xFFFF) = False"
    using lo max by simp_all
  have "EncodeRune r = [char_of (0xF0 + r div 262144), char_of (0x80 + (r div 4096) mod 64),
         char_of (0x80 + (r div 64) mod 64), char_of (0x80 + r mod 64)]"
    by (simp only: EncodeRune_def l1 l2 l3 l4 if_False)
  also have "r div 262144 = a'" unfolding r_def by (rule div_mod_4 [OF b'(2) c'(2) d'(2)])
  also have "(r div 4096) mod 64 = b'" unfolding r_def by (rule div_mod_4 [OF b'(2) c'(2) d'(2)])
  also have "(r div 64) mod 64 = c'" unfolding r_def by (rule div_mod_4 [OF b'(2) c'(2) d'(2)])
  also have "r mod 64 = d'" unfolding r_def by (rule div_mod_4 [OF b'(2) c'(2) d'(2)])
  finally have "EncodeRune r = [char_of a, char_of b, char_of c, char_of d]"
    by (simp add: a'(1) b'(1) c'(1) d'(1))
  then show ?thesis unfolding ma mb mc md r_def .
qed


lemma utf8_first_cases:
  assumes "utf8_first a = Some (sz, lo, hi)"
  obtains
    (two) "sz = 2" "0xC2 \<le> a" "a \<le> 0xDF" "lo = 0x80" "hi = 0xBF"
  | (three) "sz = 3" "0xE0 \<le> a" "a \<le> 0xEF" "0x80 \<le> lo" "hi \<le> 0xBF"
      "a = 0xE0 \<longrightarrow> lo = 0xA0" "a = 0xED \<longrightarrow> hi = 0x9F"
  | (four) "sz = 4" "0xF0 \<le> a" "a \<le> 0xF4" "0x80 \<le> lo" "hi \<le> 0xBF"
      "a = 0xF0 \<longrightarrow> lo = 0x90" "a = 0xF4 \<longrightarrow> hi = 0x8F"
  using assms by (auto simp: utf8_first_def split: if_splits)

lemma DecodeRuneInString_multi:
  assumes "\<not> (of_char c0 :: nat) < 0x80" "utf8_first (of_char c0) = Some (sz, lo, hi)"
  shows "DecodeRuneInString (c0 # t) =
     (if length (c0 # t) < sz then (RuneError, 1)
      else if (of_char ((c0 # t) ! 1) :: nat) < lo \<or> hi < (of_char ((c0 # t) ! 1) :: nat)
        then (RuneError, 1)
      else if sz \<le> 2 then
        (((of_char c0 :: nat) mod 32) * 64 + (of_char ((c0 # t) ! 1) :: nat) mod 64, 2)
      else if (of_char ((c0 # t) ! 2) :: nat) < 0x80 \<or> 0xBF < (of_char ((c0 # t) ! 2) :: nat)
        then (RuneError, 1)
      else if sz \<le> 3 then
        (((of_char c0 :: nat) mod 16) * 4096 + ((of_char ((c0 # t) ! 1) :: nat) mod 64) * 64
           + (of_char ((c0 # t) ! 2) :: nat) mod 64, 3)
      else if (of_char ((c0 # t) ! 3) :: nat) < 0x80 \<or> 0xBF < (of_char ((c0 # t) ! 3) :: nat)
        then (RuneError, 1)
      else
        (((of_char c0 :: nat) mod 8) * 262144 + ((of_char ((c0 # t) ! 1) :: nat) mod 64) * 4096
           + ((of_char ((c0 # t) ! 2) :: nat) mod 64) * 64
           + (of_char ((c0 # t) ! 3) :: nat) mod 64, 4))"
  using assms unfolding DecodeRuneInString_def Let_def by (simp del: nth_Cons_Suc nth_Cons_numeral)

lemma EncodeRune_DecodeRuneInString:
  assumes ne: "s \<noteq> []" and ok: "DecodeRuneInString s \<noteq> (RuneError, 1)"
  shows "EncodeRune (fst (DecodeRuneInString s)) = take (snd (DecodeRuneInString s)) s"
proof -
  from ne obtain c0 t where s: "s = c0 # t" by (cases s) auto
  show ?thesis
  proof (cases "(of_char c0 :: nat) < 0x80")
    case True
    then have "DecodeRuneInString s = (of_char c0, 1)" by (simp add: s DecodeRuneInString_def)
    moreover have "EncodeRune (of_char c0) = [c0]" using True by (simp add: EncodeRune_def)
    ultimately show ?thesis by (simp add: s)
  next
    case ascii: False
    show ?thesis
    proof (cases "utf8_first (of_char c0)")
      case None
      with ascii ok show ?thesis by (simp add: s DecodeRuneInString_def)
    next
      case (Some p)
      then obtain sz lo hi where p: "utf8_first (of_char c0) = Some (sz, lo, hi)"
        by (cases p) auto
      note dec = DecodeRuneInString_multi [OF ascii p, of t, folded s]
      from p show ?thesis
      proof (cases rule: utf8_first_cases)
        case two
        from ok have len: "\<not> length s < 2" and s1: "\<not> (of_char (s ! 1) :: nat) < 0x80"
          "\<not> 0xBF < (of_char (s ! 1) :: nat)"
          unfolding dec using two by (auto split: if_splits)
        from len obtain c1 t' where t: "t = c1 # t'" by (cases t) (auto simp: s)
        have d: "DecodeRuneInString s =
            (((of_char c0 :: nat) mod 32) * 64 + (of_char c1 :: nat) mod 64, 2)"
          unfolding dec using two len s1 by (simp add: s t)
        have "EncodeRune (((of_char c0 :: nat) mod 32) * 64 + (of_char c1 :: nat) mod 64)
                = [char_of (of_char c0 :: nat), char_of (of_char c1 :: nat)]"
          using two s1 by (intro EncodeRune_2) (simp_all add: s t)
        then show ?thesis unfolding d by (simp add: s t)
      next
        case three
        from ok have len: "\<not> length s < 3"
          and s1: "\<not> (of_char (s ! 1) :: nat) < lo" "\<not> hi < (of_char (s ! 1) :: nat)"
          and s2: "\<not> (of_char (s ! 2) :: nat) < 0x80" "\<not> 0xBF < (of_char (s ! 2) :: nat)"
          unfolding dec using three by (auto split: if_splits)
        from len obtain c1 c2 t' where t: "t = c1 # c2 # t'"
          by (cases t; cases "tl t") (auto simp: s)
        have d: "DecodeRuneInString s =
            (((of_char c0 :: nat) mod 16) * 4096 + ((of_char c1 :: nat) mod 64) * 64
               + (of_char c2 :: nat) mod 64, 3)"
          unfolding dec using three len s1 s2 by (simp add: s t)
        have "EncodeRune (((of_char c0 :: nat) mod 16) * 4096 + ((of_char c1 :: nat) mod 64) * 64
               + (of_char c2 :: nat) mod 64)
             = [char_of (of_char c0 :: nat), char_of (of_char c1 :: nat),
                char_of (of_char c2 :: nat)]"
          using three s1 s2 by (intro EncodeRune_3) (simp_all add: s t)
        then show ?thesis unfolding d by (simp add: s t)
      next
        case four
        from ok have len: "\<not> length s < 4"
          and s1: "\<not> (of_char (s ! 1) :: nat) < lo" "\<not> hi < (of_char (s ! 1) :: nat)"
          and s2: "\<not> (of_char (s ! 2) :: nat) < 0x80" "\<not> 0xBF < (of_char (s ! 2) :: nat)"
          and s3: "\<not> (of_char (s ! 3) :: nat) < 0x80" "\<not> 0xBF < (of_char (s ! 3) :: nat)"
          unfolding dec using four by (auto split: if_splits)
        from len obtain c1 c2 c3 t' where t: "t = c1 # c2 # c3 # t'"
          by (cases t; cases "tl t"; cases "tl (tl t)") (auto simp: s)
        have d: "DecodeRuneInString s =
            (((of_char c0 :: nat) mod 8) * 262144 + ((of_char c1 :: nat) mod 64) * 4096
               + ((of_char c2 :: nat) mod 64) * 64 + (of_char c3 :: nat) mod 64, 4)"
          unfolding dec using four len s1 s2 s3 by (simp add: s t)
        have "EncodeRune (((of_char c0 :: nat) mod 8) * 262144 + ((of_char c1 :: nat) mod 64) * 4096
               + ((of_char c2 :: nat) mod 64) * 64 + (of_char c3 :: nat) mod 64)
             = [char_of (of_char c0 :: nat), char_of (of_char c1 :: nat),
                char_of (of_char c2 :: nat), char_of (of_char c3 :: nat)]"
          using four s1 s2 s3 by (intro EncodeRune_4) (simp_all add: s t)
        then show ?thesis unfolding d by (simp add: s t)
      qed
    qed
  qed
qed


lemma string_of_runes_range_string:
  "ValidString s \<Longrightarrow> string_of_runes (range_string s) = s"
proof (induction s rule: ValidString.induct)
  case (1 s)
  show ?case
  proof (cases "s = []")
    case True
    then show ?thesis by (simp add: range_string.simps string_of_runes_def)
  next
    case False
    from "1.prems" False have ok: "DecodeRuneInString s \<noteq> (RuneError, 1)"
      and rest: "ValidString (drop (snd (DecodeRuneInString s)) s)"
      by (subst (asm) ValidString.simps, simp split: if_splits)+
    from "1.IH" [OF False ok rest]
    have "string_of_runes (range_string (drop (snd (DecodeRuneInString s)) s))
            = drop (snd (DecodeRuneInString s)) s" .
    then have "string_of_runes (range_string s)
        = EncodeRune (fst (DecodeRuneInString s)) @ drop (snd (DecodeRuneInString s)) s"
      using False by (subst range_string.simps) (simp add: string_of_runes_def)
    also have "\<dots> = s"
      by (simp add: EncodeRune_DecodeRuneInString [OF False ok])
    finally show ?thesis .
  qed
qed

section \<open>Evaluation on ASCII text\<close>


lemma DecodeRuneInString_ascii:
  "(of_char c :: nat) < 0x80 \<Longrightarrow> DecodeRuneInString (c # t) = (of_char c, 1)"
  by (simp add: DecodeRuneInString_def)

lemma range_string_Nil: "range_string [] = []"
  by (simp add: range_string.simps)

lemma range_string_ascii:
  "(of_char c :: nat) < 0x80 \<Longrightarrow> range_string (c # t) = of_char c # range_string t"
  by (subst range_string.simps) (simp add: DecodeRuneInString_ascii)

lemma ValidString_Nil: "ValidString []"
  by (simp add: ValidString.simps)

lemma ValidString_ascii:
  "(of_char c :: nat) < 0x80 \<Longrightarrow> ValidString (c # t) = ValidString t"
  by (subst ValidString.simps) (simp add: DecodeRuneInString_ascii RuneError_def)

lemma EncodeRune_ascii: "r \<le> 0x7F \<Longrightarrow> EncodeRune r = [char_of r]"
  by (simp add: EncodeRune_def)

lemmas ascii_eval =
  range_string_Nil range_string_ascii ValidString_Nil ValidString_ascii EncodeRune_ascii
  DecodeRuneInString_ascii rune_class_def IsUpper_def IsLower_def IsDigit_def
  unicode_category_def split_upper_lower.simps split_entries_def string_of_runes_def
  char_of_eq_iff RuneError_def

section \<open>The first loop of Split\<close>


lemma rune_class_pos: "rune_class T r \<noteq> 0"
  by (simp add: rune_class_def)

lemma fields_inv_Nil: "fields_inv T []"
  by (simp add: fields_inv_def)

lemma fields_inv_nth:
  "fields_inv T fs \<Longrightarrow> i < length fs \<Longrightarrow> fs ! i \<noteq> []"
  "fields_inv T fs \<Longrightarrow> i < length fs \<Longrightarrow> r \<in> set (fs ! i) \<Longrightarrow>
     rune_class T r = rune_class T (hd (fs ! i))"
  "fields_inv T fs \<Longrightarrow> Suc i < length fs \<Longrightarrow>
     rune_class T (hd (fs ! i)) \<noteq> rune_class T (hd (fs ! Suc i))"
  unfolding fields_inv_def by blast+

lemma fields_inv_new:
  assumes inv: "fields_inv T runes"
    and new: "runes \<noteq> [] \<Longrightarrow> rune_class T (hd (last runes)) \<noteq> rune_class T r"
  shows "fields_inv T (runes @ [[r]])"
  unfolding fields_inv_def
proof (intro conjI allI impI ballI)
  fix i assume "i < length (runes @ [[r]])"
  then show "(runes @ [[r]]) ! i \<noteq> []"
    using fields_inv_nth(1) [OF inv, of i] by (cases "i < length runes") (simp_all add: nth_append)
next
  fix i x assume "i < length (runes @ [[r]])" "x \<in> set ((runes @ [[r]]) ! i)"
  then show "rune_class T x = rune_class T (hd ((runes @ [[r]]) ! i))"
    using fields_inv_nth(2) [OF inv, of i x]
    by (cases "i < length runes") (simp_all add: nth_append)
next
  fix i assume i: "Suc i < length (runes @ [[r]])"
  show "rune_class T (hd ((runes @ [[r]]) ! i)) \<noteq> rune_class T (hd ((runes @ [[r]]) ! Suc i))"
  proof (cases "Suc i < length runes")
    case True
    then show ?thesis using fields_inv_nth(3) [OF inv True] by (simp add: nth_append)
  next
    case False
    with i have eq: "Suc i = length runes" by simp
    then have ne: "runes \<noteq> []" by auto
    from eq [symmetric] have "last runes = runes ! i" by (simp add: last_conv_nth ne)
    with new [OF ne] eq show ?thesis by (simp add: nth_append)
  qed
qed

lemma fields_inv_extend:
  assumes inv: "fields_inv T runes" and ne: "runes \<noteq> []"
    and cls: "rune_class T r = rune_class T (hd (last runes))"
  shows "fields_inv T (runes[length runes - 1 := runes ! (length runes - 1) @ [r]])"
proof -
  from ne obtain xs f where runes: "runes = xs @ [f]" by (cases runes rule: rev_cases) auto
  from fields_inv_nth(1) [OF inv, of "length xs"] have f: "f \<noteq> []" by (simp add: runes)
  have upd: "runes[length runes - 1 := runes ! (length runes - 1) @ [r]] = xs @ [f @ [r]]"
    by (simp add: runes)
  from cls have cls': "rune_class T r = rune_class T (hd f)" by (simp add: runes)
  show ?thesis
    unfolding upd fields_inv_def
  proof (intro conjI allI impI ballI)
    fix i assume "i < length (xs @ [f @ [r]])"
    then show "(xs @ [f @ [r]]) ! i \<noteq> []"
      using fields_inv_nth(1) [OF inv, of i]
      by (cases "i < length xs") (simp_all add: nth_append runes)
  next
    fix i x assume "i < length (xs @ [f @ [r]])" "x \<in> set ((xs @ [f @ [r]]) ! i)"
    then show "rune_class T x = rune_class T (hd ((xs @ [f @ [r]]) ! i))"
      using fields_inv_nth(2) [OF inv, of i x] cls' f
      by (cases "i < length xs") (auto simp: nth_append runes)
  next
    fix i assume i: "Suc i < length (xs @ [f @ [r]])"
    then have "Suc i < length runes" by (simp add: runes)
    from fields_inv_nth(3) [OF inv this] i f
    show "rune_class T (hd ((xs @ [f @ [r]]) ! i))
            \<noteq> rune_class T (hd ((xs @ [f @ [r]]) ! Suc i))"
      by (cases "Suc i < length xs") (auto simp: nth_append runes)
  qed
qed

lemma hd_last_extend:
  "runes \<noteq> [] \<Longrightarrow> runes ! (length runes - 1) \<noteq> [] \<Longrightarrow>
   hd (last (runes[length runes - 1 := runes ! (length runes - 1) @ [r]])) = hd (last runes)"
  by (simp add: last_conv_nth)

lemma concat_extend:
  "runes \<noteq> [] \<Longrightarrow>
   concat (runes[length runes - 1 := runes ! (length runes - 1) @ [r]]) = concat runes @ [r]"
  by (cases runes rule: rev_cases) simp_all

lemma split_fields_inv:
  assumes "fields_inv T runes"
    and "lastClass = (if runes = [] then 0 else rune_class T (hd (last runes)))"
  shows "\<exists>fs. split_fields T rs runes lastClass = Inr fs \<and> fields_inv T fs
              \<and> concat fs = concat runes @ rs"
  using assms
proof (induction rs arbitrary: runes lastClass)
  case Nil
  then show ?case by simp
next
  case (Cons r rs)
  show ?case
  proof (cases "rune_class T r = lastClass")
    case True
    with Cons.prems(2) rune_class_pos [of T r] have ne: "runes \<noteq> []"
      by (cases "runes = []") simp_all
    define runes' where "runes' = runes[length runes - 1 := runes ! (length runes - 1) @ [r]]"
    from ne have lne: "runes ! (length runes - 1) \<noteq> []"
      by (intro fields_inv_nth(1) [OF Cons.prems(1)]) simp
    from Cons.prems(2) ne True have cls: "rune_class T r = rune_class T (hd (last runes))"
      by simp
    have 1: "fields_inv T runes'"
      unfolding runes'_def by (rule fields_inv_extend [OF Cons.prems(1) ne cls])
    have 2: "runes' \<noteq> []" using ne by (simp add: runes'_def)
    have "hd (last runes') = hd (last runes)"
      unfolding runes'_def by (rule hd_last_extend [OF ne lne])
    with cls 2 have 3: "rune_class T r = (if runes' = [] then 0 else rune_class T (hd (last runes')))"
      by simp
    have cc: "concat runes' = concat runes @ [r]"
      unfolding runes'_def by (rule concat_extend [OF ne])
    from Cons.IH [OF 1 3]
    obtain fs where fs: "split_fields T rs runes' (rune_class T r) = Inr fs"
      "fields_inv T fs" "concat fs = concat runes' @ rs" by blast
    have "split_fields T (r # rs) runes lastClass = split_fields T rs runes' (rune_class T r)"
      using True ne by (simp add: runes'_def)
    with fs cc show ?thesis by simp
  next
    case False
    define runes' where "runes' = runes @ [[r]]"
    from Cons.prems(2) False
    have "runes \<noteq> [] \<Longrightarrow> rune_class T (hd (last runes)) \<noteq> rune_class T r"
      by simp
    then have 1: "fields_inv T runes'"
      unfolding runes'_def by (rule fields_inv_new [OF Cons.prems(1)])
    have 3: "rune_class T r = (if runes' = [] then 0 else rune_class T (hd (last runes')))"
      by (simp add: runes'_def)
    from Cons.IH [OF 1 3]
    obtain fs where fs: "split_fields T rs runes' (rune_class T r) = Inr fs"
      "fields_inv T fs" "concat fs = concat runes' @ rs" by blast
    have "split_fields T (r # rs) runes lastClass = split_fields T rs runes' (rune_class T r)"
      using False by (simp add: runes'_def)
    with fs show ?thesis by (simp add: runes'_def)
  qed
qed

section \<open>The second loop of Split\<close>

lemma rune_class_lower: "rune_class T r = 1 \<longleftrightarrow> IsLower T r"
  by (simp add: rune_class_def)

lemma rune_class_upper: "rune_class T r = 2 \<longleftrightarrow> IsUpper T r"
  by (auto simp: rune_class_def IsLower_def IsUpper_def)

lemma fields_inv_upper:
  assumes inv: "fields_inv T fs" and i: "i < length fs"
  shows "composed_upper T (fs ! i) \<longleftrightarrow> IsUpper T (hd (fs ! i))"
proof
  assume "composed_upper T (fs ! i)"
  then show "IsUpper T (hd (fs ! i))"
    by (cases "fs ! i") (simp_all add: composed_upper_def)
next
  assume up: "IsUpper T (hd (fs ! i))"
  have "IsUpper T r" if "r \<in> set (fs ! i)" for r
    using fields_inv_nth(2) [OF inv i that] up by (simp add: rune_class_upper [symmetric])
  with fields_inv_nth(1) [OF inv i] show "composed_upper T (fs ! i)"
    by (simp add: composed_upper_def list_all_iff)
qed

lemma fields_inv_lower:
  assumes inv: "fields_inv T fs" and i: "i < length fs"
  shows "begins_lower T (fs ! i) \<longleftrightarrow> IsLower T (hd (fs ! i))"
  using fields_inv_nth(1) [OF inv i] by (cases "fs ! i") (simp_all add: begins_lower_def)

lemma fields_inv_lower_next:
  assumes inv: "fields_inv T fs" and i: "Suc i < length fs"
    and lo: "IsLower T (hd (fs ! i))"
  shows "\<not> IsLower T (hd (fs ! Suc i))"
  using fields_inv_nth(3) [OF inv i] lo by (simp add: rune_class_lower [symmetric])

lemma lower_not_upper: "IsLower T r \<Longrightarrow> \<not> IsUpper T r"
  by (simp add: IsLower_def IsUpper_def)

lemma composed_upper_last: "composed_upper T f \<Longrightarrow> IsUpper T (last f)"
  by (simp add: composed_upper_def list_all_iff)

lemma split_upper_lower_spec_aux:
  assumes inv: "fields_inv T fs"
  shows "length runes = length fs \<Longrightarrow> i < length fs \<Longrightarrow>
         (\<And>j. j < i \<Longrightarrow> runes ! j = spec_fragment T fs j) \<Longrightarrow>
         runes ! i = spec_carry T fs i @ fs ! i \<Longrightarrow>
         (\<And>j. i < j \<Longrightarrow> j < length fs \<Longrightarrow> runes ! j = fs ! j) \<Longrightarrow>
         split_upper_lower T i runes = Inr (spec_disambiguation T fs)"
proof (induction "length fs - Suc i" arbitrary: i runes)
  case 0
  then have last_i: "Suc i = length fs" by simp
  then have nomove: "\<not> spec_moves T fs i" by (simp add: spec_moves_def)
  have "runes = spec_disambiguation T fs"
  proof (rule nth_equalityI)
    show "length runes = length (spec_disambiguation T fs)"
      using "0.prems"(1) by (simp add: spec_disambiguation_def)
  next
    fix j assume "j < length runes"
    with "0.prems"(1) last_i have "j < i \<or> j = i" by auto
    then show "runes ! j = spec_disambiguation T fs ! j"
    proof
      assume "j < i"
      with "0.prems"(3) [of j] "0.prems"(2) show ?thesis
        by (simp add: spec_disambiguation_def)
    next
      assume "j = i"
      with "0.prems"(4) "0.prems"(2) nomove show ?thesis
        by (simp add: spec_disambiguation_def spec_fragment_def)
    qed
  qed
  moreover have "split_upper_lower T i runes = Inr runes"
    using last_i "0.prems"(1) by (simp add: split_upper_lower.simps)
  ultimately show ?case by simp
next
  case (Suc n)
  then have i1: "Suc i < length fs" by simp
  have fi: "fs ! i \<noteq> []" by (rule fields_inv_nth(1) [OF inv Suc.prems(2)])
  have fi1: "fs ! Suc i \<noteq> []" by (rule fields_inv_nth(1) [OF inv i1])
  have ri1: "runes ! Suc i = fs ! Suc i" using Suc.prems(5) [of "Suc i"] i1 by simp
  have n: "n = length fs - Suc (Suc i)" using Suc.hyps(2) by simp
  have step_same:
    "split_upper_lower T (Suc i) runes = Inr (spec_disambiguation T fs)"
    if nomove: "\<not> spec_moves T fs i"
  proof (rule Suc.hyps(1) [OF n Suc.prems(1) i1])
    fix j assume "j < Suc i"
    then have "j < i \<or> j = i" by auto
    then show "runes ! j = spec_fragment T fs j"
      using Suc.prems(3) [of j] Suc.prems(4) nomove by (auto simp: spec_fragment_def)
  next
    show "runes ! Suc i = spec_carry T fs (Suc i) @ fs ! Suc i"
      using ri1 nomove by (simp add: spec_carry_def)
  next
    fix j assume "Suc i < j" "j < length fs"
    then show "runes ! j = fs ! j" using Suc.prems(5) [of j] by simp
  qed
  show ?case
  proof (cases "spec_carry T fs i = []")
    case False
    then have mv: "0 < i" "spec_moves T fs (i - 1)"
      by (simp_all add: spec_carry_def split: if_splits)
    then have lo: "IsLower T (hd (fs ! i))"
      using fields_inv_lower [OF inv Suc.prems(2)] by (simp add: spec_moves_def)
    have up: "IsUpper T (hd (runes ! i))"
      using mv composed_upper_last [of T "fs ! (i - 1)"]
      by (simp add: Suc.prems(4) spec_carry_def spec_moves_def)
    have nlo: "\<not> IsLower T (hd (runes ! Suc i))"
      using fields_inv_lower_next [OF inv i1 lo] ri1 by simp
    have nomove: "\<not> spec_moves T fs i"
      using lower_not_upper [OF lo] fields_inv_upper [OF inv Suc.prems(2)]
      by (simp add: spec_moves_def)
    have "split_upper_lower T i runes = split_upper_lower T (Suc i) runes"
      using i1 Suc.prems(1) Suc.prems(4) fi up ri1 fi1 nlo
      by (subst split_upper_lower.simps) simp
    with step_same [OF nomove] show ?thesis by simp
  next
    case True
    then have ri: "runes ! i = fs ! i" using Suc.prems(4) by simp
    have mv_iff: "spec_moves T fs i \<longleftrightarrow>
        IsUpper T (hd (runes ! i)) \<and> IsLower T (hd (runes ! Suc i))"
      using fields_inv_upper [OF inv Suc.prems(2)] fields_inv_lower [OF inv i1] i1
      by (simp add: spec_moves_def ri ri1)
    show ?thesis
    proof (cases "spec_moves T fs i")
      case nomove: False
      have "split_upper_lower T i runes = split_upper_lower T (Suc i) runes"
        using i1 Suc.prems(1) ri fi ri1 fi1 nomove mv_iff
        by (subst split_upper_lower.simps) auto
      with step_same [OF nomove] show ?thesis by simp
    next
      case move: True
      define runes' where
        "runes' = runes[i + 1 := last (runes ! i) # runes ! (i + 1), i := butlast (runes ! i)]"
      have eq: "split_upper_lower T i runes = split_upper_lower T (Suc i) runes'"
        using i1 Suc.prems(1) ri fi ri1 fi1 move mv_iff
        by (subst split_upper_lower.simps) (simp add: runes'_def)
      have len': "length runes' = length fs" by (simp add: runes'_def Suc.prems(1))
      have "split_upper_lower T (Suc i) runes' = Inr (spec_disambiguation T fs)"
      proof (rule Suc.hyps(1) [OF n len' i1])
        fix j assume "j < Suc i"
        then have "j < i \<or> j = i" by auto
        then show "runes' ! j = spec_fragment T fs j"
        proof
          assume "j < i"
          then show ?thesis using Suc.prems(3) [of j] by (simp add: runes'_def)
        next
          assume "j = i"
          then show ?thesis using True move ri i1 Suc.prems(1)
            by (simp add: runes'_def spec_fragment_def)
        qed
      next
        show "runes' ! Suc i = spec_carry T fs (Suc i) @ fs ! Suc i"
          using move ri ri1 i1 Suc.prems(1) by (simp add: runes'_def spec_carry_def)
      next
        fix j assume "Suc i < j" "j < length fs"
        then show "runes' ! j = fs ! j" using Suc.prems(5) [of j] by (simp add: runes'_def)
      qed
      with eq show ?thesis by simp
    qed
  qed
qed

lemma split_upper_lower_spec:
  assumes inv: "fields_inv T fs"
  shows "split_upper_lower T 0 fs = Inr (spec_disambiguation T fs)"
proof (cases "fs = []")
  case True
  then show ?thesis by (simp add: split_upper_lower.simps spec_disambiguation_def)
next
  case False
  show ?thesis
    by (rule split_upper_lower_spec_aux [OF inv]) (use False in \<open>simp_all add: spec_carry_def\<close>)
qed

section \<open>Split returns, and keeps every rune\<close>

lemma concat_move:
  assumes i: "Suc i < length runes" and ne: "runes ! i \<noteq> []"
  shows "concat (runes[Suc i := last (runes ! i) # runes ! Suc i, i := butlast (runes ! i)])
         = concat runes"
proof -
  define xs a b ys where "xs = take i runes" and "a = runes ! i" and "b = runes ! Suc i"
    and "ys = drop (Suc (Suc i)) runes"
  have runes: "runes = xs @ a # b # ys"
    using i by (simp add: xs_def a_def b_def ys_def Cons_nth_drop_Suc Suc_lessD)
  have len: "length xs = i" using i by (simp add: xs_def)
  have a: "a \<noteq> []" using ne by (simp add: a_def)
  have "runes[Suc i := last (runes ! i) # runes ! Suc i, i := butlast (runes ! i)]
        = xs @ butlast a # (last a # b) # ys"
    unfolding runes len [symmetric] by (simp add: list_update_append nth_append)
  moreover have "concat (xs @ butlast a # (last a # b) # ys) = concat (xs @ a # b # ys)"
    using a by simp
  ultimately show ?thesis by (simp add: runes [symmetric])
qed

lemma split_upper_lower_concat:
  "split_upper_lower T i runes = Inr out \<Longrightarrow> concat out = concat runes"
proof (induction T i runes rule: split_upper_lower.induct)
  case (1 T i runes)
  show ?case
  proof (cases "i + 1 < length runes")
    case False
    with "1.prems" show ?thesis by (simp add: split_upper_lower.simps)
  next
    case True
    from "1.prems" True have ne: "runes ! i \<noteq> []"
      by (subst (asm) split_upper_lower.simps) (auto split: if_splits)
    show ?thesis
    proof (cases "IsUpper T (hd (runes ! i))")
      case up: False
      with "1.prems" True ne have "split_upper_lower T (i + 1) runes = Inr out"
        by (subst (asm) split_upper_lower.simps) simp
      from "1.IH"(3) [OF True ne up this] show ?thesis .
    next
      case up: True
      from "1.prems" True ne up have ne1: "runes ! (i + 1) \<noteq> []"
        by (subst (asm) split_upper_lower.simps) (auto split: if_splits)
      show ?thesis
      proof (cases "IsLower T (hd (runes ! (i + 1)))")
        case lo: False
        with "1.prems" True ne up ne1 have "split_upper_lower T (i + 1) runes = Inr out"
          by (subst (asm) split_upper_lower.simps) simp
        from "1.IH"(2) [OF True ne up ne1 lo this] show ?thesis .
      next
        case lo: True
        with "1.prems" True ne up ne1
        have "split_upper_lower T (i + 1)
                (runes[i + 1 := last (runes ! i) # runes ! (i + 1), i := butlast (runes ! i)])
              = Inr out"
          by (subst (asm) split_upper_lower.simps) simp
        from "1.IH"(1) [OF True ne up ne1 lo this] concat_move [of i runes] True ne
        show ?thesis by simp
      qed
    qed
  qed
qed

lemma string_of_runes_Nil: "string_of_runes [] = []"
  by (simp add: string_of_runes_def)

lemma string_of_runes_append:
  "string_of_runes (xs @ ys) = string_of_runes xs @ string_of_runes ys"
  by (simp add: string_of_runes_def)

lemma concat_split_entries: "concat (split_entries runes) = string_of_runes (concat runes)"
  by (induction runes)
     (simp_all add: split_entries_def string_of_runes_append string_of_runes_Nil)

lemma Split_valid:
  assumes "ValidString src"
  shows "\<exists>fs. fields_inv T fs \<and> concat fs = range_string src
           \<and> split_fields T (range_string src) [] 0 = Inr fs
           \<and> Split T src = Inr (split_entries (spec_disambiguation T fs))"
proof -
  from split_fields_inv [of T "[]" 0 "range_string src"]
  obtain fs where fs: "split_fields T (range_string src) [] 0 = Inr fs" "fields_inv T fs"
    "concat fs = range_string src"
    by (auto simp: fields_inv_Nil)
  from split_upper_lower_spec [OF fs(2)] fs assms show ?thesis
    by (simp add: Split_def)
qed

lemma Split_total: "\<exists>entries. Split T src = Inr entries"
proof (cases "ValidString src")
  case True
  from Split_valid [OF True, of T] show ?thesis by blast
next
  case False
  then show ?thesis by (simp add: Split_def)
qed

lemma Split_concat:
  assumes "ValidString src"
  shows "\<exists>entries. Split T src = Inr entries \<and> concat entries = src"
proof -
  from Split_valid [OF assms, of T] obtain fs where fs: "fields_inv T fs"
    "concat fs = range_string src" "Split T src = Inr (split_entries (spec_disambiguation T fs))"
    by blast
  from split_upper_lower_spec [OF fs(1)]
  have "concat (spec_disambiguation T fs) = concat fs"
    by (rule split_upper_lower_concat)
  with fs(2) have "concat (split_entries (spec_disambiguation T fs)) = src"
    by (simp add: concat_split_entries string_of_runes_range_string [OF assms])
  with fs(3) show ?thesis by simp
qed

lemma mockDoc_total: "\<exists>d. mockDoc T name = Inr d"
  using Split_total [of T name] by (auto simp: mockDoc_def)

lemma autoDecl_doc_form:
  "\<exists>d. autoDecl_doc T fl ident = Inr (''// '' @ Name ident @ '' '' @ d)"
  using mockDoc_total [of T "Name ident"] by (auto simp: autoDecl_doc_def)

lemmas autoDecl_eval =
  autoDecl_def autoDecl_doc_def default_flags_def IsExported_def ascii_eval
  containsGoDoc_def strings_HasPrefix_def strings_TrimPrefix_def trimPrefix_def
  trimPrefix_cases_def

section \<open>What autoDecl returns\<close>

lemma strings_HasPrefix_prefix: "strings_HasPrefix s p \<longleftrightarrow> prefix p s"
proof
  assume "strings_HasPrefix s p"
  then have "take (length p) s = p" by (simp add: strings_HasPrefix_def)
  then show "prefix p s" by (metis take_is_prefix)
next
  assume "prefix p s"
  then obtain r where "s = p @ r" by (auto simp: prefix_def)
  then show "strings_HasPrefix s p" by (simp add: strings_HasPrefix_def)
qed

lemma trimPrefix_loop_find:
  "trimPrefix_loop doc cs =
     (case find (\<lambda>p. prefix p doc) cs of None \<Rightarrow> doc | Some p \<Rightarrow> drop (length p) doc)"
  by (induction cs) (simp_all add: strings_TrimPrefix_def strings_HasPrefix_prefix)

lemma IsExported_Name:
  assumes "IsExported T ident"
  obtains c n where "Name ident = c # n" "c \<noteq> CHR '' ''"
proof (cases "Name ident")
  case Nil
  with assms show ?thesis
    by (simp add: IsExported_def DecodeRuneInString_def IsUpper_def unicode_category_def
        RuneError_def)
next
  case (Cons c n)
  have "c \<noteq> CHR '' ''"
  proof
    assume "c = CHR '' ''"
    with assms Cons show False
      by (simp add: IsExported_def DecodeRuneInString_ascii IsUpper_def unicode_category_def)
  qed
  with Cons that show ?thesis by blast
qed

lemma autoDecl_exported:
  assumes "IsExported T ident" and "autoDecl_doc T fl ident = Inr doc"
  shows "autoDecl T fl ident decorations =
     Inr (case decorations of
            [] \<Rightarrow> [doc]
          | first # rest \<Rightarrow>
              if first = ''// '' @ Name ident \<or> first = ''//'' @ Name ident then doc # rest
              else if \<not> strings_HasPrefix first (''// '' @ Name ident @ '' '') then
                (''// '' @ Name ident @ '' '' @ trimPrefix first (Name ident)) # rest
              else first # rest)"
  using assms by (cases decorations) (simp_all add: autoDecl_def containsGoDoc_def)

lemma autoDecl_well_formed:
  assumes "IsExported T ident"
  shows "autoDecl T fl ident ((''// '' @ Name ident @ '' '' @ d) # rest)
           = Inr ((''// '' @ Name ident @ '' '' @ d) # rest)"
proof -
  obtain doc where doc: "autoDecl_doc T fl ident = Inr doc"
    using autoDecl_doc_form [of T fl ident] by blast
  have "length (''// '' @ Name ident @ '' '' @ d) \<noteq> length (''// '' @ Name ident)"
    "length (''// '' @ Name ident @ '' '' @ d) \<noteq> length (''//'' @ Name ident)"
    by simp_all
  then have ne: "''// '' @ Name ident @ '' '' @ d \<noteq> ''// '' @ Name ident"
    "''// '' @ Name ident @ '' '' @ d \<noteq> ''//'' @ Name ident"
    by (metis, metis)
  have "prefix (''// '' @ Name ident @ '' '') (''// '' @ Name ident @ '' '' @ d)"
    by simp
  then have "strings_HasPrefix (''// '' @ Name ident @ '' '' @ d) (''// '' @ Name ident @ '' '')"
    by (simp only: strings_HasPrefix_prefix)
  with ne show ?thesis
    unfolding autoDecl_exported [OF assms doc] by (simp only: list.case if_False simp_thms)
qed

lemma autoDecl_out:
  assumes "IsExported T ident"
  shows "autoDecl T fl ident decorations = Inr decorations
         \<or> (\<exists>d. autoDecl T fl ident decorations
                  = Inr ((''// '' @ Name ident @ '' '' @ d) # tl decorations))"
proof -
  obtain d where doc: "autoDecl_doc T fl ident = Inr (''// '' @ Name ident @ '' '' @ d)"
    using autoDecl_doc_form [of T fl ident] by blast
  show ?thesis
    unfolding autoDecl_exported [OF assms doc]
    by (cases decorations) auto
qed

text \<open>
  C2: rewriting is idempotent. For every name, comment block and value of the flags
  (whatever \<open>commentFormat\<close> holds, \<open>autoDescription\<close> set or not), autoDecl
  returns a block, and autoDecl applied to that block with the same name and flags
  returns it unchanged. The name is exported or not as IsExported decides from its text.
\<close>

theorem autoDecl_idempotent:
  "\<exists>out. autoDecl T fl ident decorations = Inr out \<and> autoDecl T fl ident out = Inr out"
proof (cases "IsExported T ident")
  case False
  then show ?thesis by (simp add: autoDecl_def)
next
  case True
  from autoDecl_out [OF True, of fl decorations] show ?thesis
  proof
    assume "autoDecl T fl ident decorations = Inr decorations"
    then show ?thesis by simp
  next
    assume "\<exists>d. autoDecl T fl ident decorations
                  = Inr ((''// '' @ Name ident @ '' '' @ d) # tl decorations)"
    then obtain d where "autoDecl T fl ident decorations
                  = Inr ((''// '' @ Name ident @ '' '' @ d) # tl decorations)" ..
    with autoDecl_well_formed [OF True, of fl d "tl decorations"] show ?thesis by simp
  qed
qed

text \<open>
  C8: autoDecl never panics. For every identifier, every comment block, the empty one
  included, and every value of the flags it returns a block: the read of \<open>all[0]\<close>,
  the read of \<open>runes[len(runes)-1]\<close> in the first loop of Split and the reads of
  \<open>runes[i][0]\<close>, \<open>runes[i+1][0]\<close> and the last rune of \<open>runes[i]\<close> in the second
  loop stay in bounds. Split and mockDoc return on every string. Every function of the
  model is total, the loops by their termination proofs.
\<close>

theorem autoDecl_total:
  "(\<exists>out. autoDecl T fl ident decorations = Inr out)
   \<and> (\<exists>entries. Split T src = Inr entries)
   \<and> (\<exists>d. mockDoc T src = Inr d)"
proof (intro conjI)
  show "\<exists>out. autoDecl T fl ident decorations = Inr out"
    using autoDecl_out [of T ident fl decorations]
    by (cases "IsExported T ident") (auto simp: autoDecl_def)
  show "\<exists>entries. Split T src = Inr entries" by (rule Split_total)
  show "\<exists>d. mockDoc T src = Inr d" by (rule mockDoc_total)
qed

text \<open>
  C7: on a non-empty comment block autoDecl changes the line at index 0 at most: the
  result is one head line followed by the lines after the head of the input, all of them,
  unchanged and in their order.
\<close>

theorem autoDecl_frame:
  "decorations \<noteq> [] \<Longrightarrow>
   \<exists>head. autoDecl T fl ident decorations = Inr (head # tl decorations)"
proof (cases "IsExported T ident")
  case False
  assume "decorations \<noteq> []"
  with False show ?thesis by (cases decorations) (simp_all add: autoDecl_def)
next
  case True
  assume "decorations \<noteq> []"
  with autoDecl_out [OF True, of fl decorations] show ?thesis
    by (cases decorations) auto
qed

theorem autoDecl_frame_witness:
  "[''// camel case'', ''// second line''] \<noteq> []
   \<and> (\<exists>head. autoDecl ascii_tables default_flags \<lparr>Name = ''CamelCase''\<rparr>
                 [''// camel case'', ''// second line'']
               = Inr (head # tl [''// camel case'', ''// second line'']))"
proof -
  have h: "[''// camel case'', ''// second line''] \<noteq> []" by simp
  from h autoDecl_frame [OF h, of ascii_tables default_flags "\<lparr>Name = ''CamelCase''\<rparr>"]
  show ?thesis by blast
qed

text \<open>
  C4: for an exported name and a block whose head line neither starts with
  \<open>"// " + name + " "\<close> nor equals \<open>"// " + name\<close> or \<open>"//" + name\<close>, the head
  line of the result is \<open>"// " + name + " " + r\<close>, where \<open>r\<close> is the head line
  without the first of the seven prefixes, in the order of the list, that it starts with,
  and the whole head line when it starts with none. \<open>r\<close> is taken as it is. The other
  lines are unchanged.
\<close>

theorem autoDecl_missing_name_prefix:
  assumes "IsExported T ident"
    and "\<not> prefix (''// '' @ Name ident @ '' '') head"
    and "head \<noteq> ''// '' @ Name ident" and "head \<noteq> ''//'' @ Name ident"
  shows "autoDecl T fl ident (head # others) =
     Inr ((''// '' @ Name ident @ '' '' @
            (case find (\<lambda>p. prefix p head)
                    [''//'' @ Name ident @ '' '',
                     ''// '' @ Name ident @ '': '',
                     ''// '' @ Name ident @ '':'',
                     ''//'' @ Name ident @ '': '',
                     ''//'' @ Name ident @ '':'',
                     ''// '',
                     ''//''] of
               None \<Rightarrow> head
             | Some p \<Rightarrow> drop (length p) head)) # others)"
proof -
  obtain doc where doc: "autoDecl_doc T fl ident = Inr doc"
    using autoDecl_doc_form [of T fl ident] by blast
  have "trimPrefix head (Name ident) =
      (case find (\<lambda>p. prefix p head) (trimPrefix_cases (Name ident)) of
         None \<Rightarrow> head | Some p \<Rightarrow> drop (length p) head)"
    unfolding trimPrefix_def by (rule trimPrefix_loop_find)
  then show ?thesis
    unfolding autoDecl_exported [OF assms(1) doc]
    using assms(2-4) by (simp add: strings_HasPrefix_prefix trimPrefix_cases_def)
qed

theorem autoDecl_missing_name_prefix_witness:
  "IsExported ascii_tables \<lparr>Name = ''CamelCase''\<rparr>
   \<and> \<not> prefix (''// '' @ ''CamelCase'' @ '' '') ''// CamelCase: camel case''
   \<and> ''// CamelCase: camel case'' \<noteq> ''// '' @ ''CamelCase''
   \<and> ''// CamelCase: camel case'' \<noteq> ''//'' @ ''CamelCase''
   \<and> autoDecl ascii_tables default_flags \<lparr>Name = ''CamelCase''\<rparr>
         [''// CamelCase: camel case'', ''// second line'']
       = Inr [''// CamelCase camel case'', ''// second line'']"
proof -
  have h1: "IsExported ascii_tables \<lparr>Name = ''CamelCase''\<rparr>"
    by (simp add: IsExported_def ascii_eval)
  have h2: "\<not> prefix (''// '' @ Name \<lparr>Name = ''CamelCase''\<rparr> @ '' '') ''// CamelCase: camel case''"
    by simp
  have h3: "''// CamelCase: camel case'' \<noteq> ''// '' @ Name \<lparr>Name = ''CamelCase''\<rparr>"
    and h4: "''// CamelCase: camel case'' \<noteq> ''//'' @ Name \<lparr>Name = ''CamelCase''\<rparr>"
    by simp_all
  from autoDecl_missing_name_prefix [OF h1 h2 h3 h4, of default_flags "[''// second line'']"]
  have "autoDecl ascii_tables default_flags \<lparr>Name = ''CamelCase''\<rparr>
         [''// CamelCase: camel case'', ''// second line'']
       = Inr [''// CamelCase camel case'', ''// second line'']"
    by simp
  with h1 h2 h3 h4 show ?thesis by simp
qed


text \<open>
  C10: for an exported name and a head line that is exactly one of the seven prefixes
  trimPrefix strips (such as \<open>"// " + name + ":"\<close>, \<open>"//" + name + ":"\<close>,
  \<open>"//"\<close> or \<open>"// "\<close>), the head line of the result is \<open>"// " + name + " "\<close>:
  it ends in a space and has an empty description. The other lines are unchanged.
\<close>

theorem trailing_space:
  assumes "IsExported T ident"
    and "head \<in> set [''//'' @ Name ident @ '' '',
                       ''// '' @ Name ident @ '': '',
                       ''// '' @ Name ident @ '':'',
                       ''//'' @ Name ident @ '': '',
                       ''//'' @ Name ident @ '':'',
                       ''// '',
                       ''//'']"
  shows "autoDecl T fl ident (head # others) = Inr ((''// '' @ Name ident @ '' '') # others)"
proof -
  obtain doc where doc: "autoDecl_doc T fl ident = Inr doc"
    using autoDecl_doc_form [of T fl ident] by blast
  from assms(1) obtain c n where name: "Name ident = c # n" and c: "c \<noteq> CHR '' ''"
    by (rule IsExported_Name)
  from c have c': "CHR '' '' \<noteq> c" by blast
  note defs = name strings_HasPrefix_prefix trimPrefix_def trimPrefix_cases_def
    strings_TrimPrefix_def
  from assms(2) consider
      "head = ''//'' @ Name ident @ '' ''"
    | "head = ''// '' @ Name ident @ '': ''"
    | "head = ''// '' @ Name ident @ '':''"
    | "head = ''//'' @ Name ident @ '': ''"
    | "head = ''//'' @ Name ident @ '':''"
    | "head = ''// ''"
    | "head = ''//''"
    by (simp only: set_simps insert_iff empty_iff) blast
  then show ?thesis
  proof cases
    case 1
    then show ?thesis unfolding autoDecl_exported [OF assms(1) doc] using c c'
      by (simp add: defs)
  next
    case 2
    then show ?thesis unfolding autoDecl_exported [OF assms(1) doc] using c c'
      by (simp add: defs)
  next
    case 3
    then show ?thesis unfolding autoDecl_exported [OF assms(1) doc] using c c'
      by (simp add: defs)
  next
    case 4
    then show ?thesis unfolding autoDecl_exported [OF assms(1) doc] using c c'
      by (simp add: defs)
  next
    case 5
    then show ?thesis unfolding autoDecl_exported [OF assms(1) doc] using c c'
      by (simp add: defs)
  next
    case 6
    then show ?thesis unfolding autoDecl_exported [OF assms(1) doc] using c c'
      by (simp add: defs)
  next
    case 7
    then show ?thesis unfolding autoDecl_exported [OF assms(1) doc] using c c'
      by (simp add: defs)
  qed
qed

theorem trailing_space_witness:
  "IsExported ascii_tables \<lparr>Name = ''CamelCase''\<rparr>
   \<and> ''//CamelCase:'' \<in> set [''//'' @ ''CamelCase'' @ '' '',
                       ''// '' @ ''CamelCase'' @ '': '',
                       ''// '' @ ''CamelCase'' @ '':'',
                       ''//'' @ ''CamelCase'' @ '': '',
                       ''//'' @ ''CamelCase'' @ '':'',
                       ''// '',
                       ''//'']
   \<and> autoDecl ascii_tables default_flags \<lparr>Name = ''CamelCase''\<rparr>
         [''//CamelCase:'', ''// second line'']
       = Inr [''// CamelCase '', ''// second line'']"
proof -
  have h1: "IsExported ascii_tables \<lparr>Name = ''CamelCase''\<rparr>"
    by (simp add: IsExported_def ascii_eval)
  have h2: "''//CamelCase:'' \<in> set [''//'' @ Name \<lparr>Name = ''CamelCase''\<rparr> @ '' '',
                       ''// '' @ Name \<lparr>Name = ''CamelCase''\<rparr> @ '': '',
                       ''// '' @ Name \<lparr>Name = ''CamelCase''\<rparr> @ '':'',
                       ''//'' @ Name \<lparr>Name = ''CamelCase''\<rparr> @ '': '',
                       ''//'' @ Name \<lparr>Name = ''CamelCase''\<rparr> @ '':'',
                       ''// '',
                       ''//'']"
    by simp
  from trailing_space [OF h1 h2, of default_flags "[''// second line'']"]
  have "autoDecl ascii_tables default_flags \<lparr>Name = ''CamelCase''\<rparr>
         [''//CamelCase:'', ''// second line'']
       = Inr [''// CamelCase '', ''// second line'']"
    by simp
  with h1 h2 show ?thesis by simp
qed


section \<open>Declarations that are not exported\<close>

text \<open>
  C9: for an identifier that is not exported, autoDecl returns the comment block it was
  given, whatever the block and the flags are.
\<close>

theorem autoDecl_not_exported:
  "\<not> IsExported T ident \<Longrightarrow> autoDecl T fl ident decorations = Inr decorations"
  by (simp add: autoDecl_def)

theorem autoDecl_not_exported_witness:
  "\<not> IsExported ascii_tables \<lparr>Name = ''camelCase''\<rparr>
   \<and> autoDecl ascii_tables default_flags \<lparr>Name = ''camelCase''\<rparr> [''//camelCase: x'', ''// y'']
       = Inr [''//camelCase: x'', ''// y'']"
proof -
  have h: "\<not> IsExported ascii_tables \<lparr>Name = ''camelCase''\<rparr>"
    by (simp add: IsExported_def ascii_eval)
  from h autoDecl_not_exported [OF h] show ?thesis by simp
qed

section \<open>The examples of the specification and the segmenter\<close>

text \<open>
  The colon case of the specification names the identifier \<open>CamelCase\<close> and a comment
  written for \<open>CamelCase2\<close>. autoDecl does not return the block the specification
  gives for it.
\<close>

theorem colon_case_counterexample:
  "autoDecl ascii_tables default_flags \<lparr>Name = ''CamelCase''\<rparr> [''//CamelCase2: camel case'']
     \<noteq> Inr [''// CamelCase2 camel case'']"
  by (simp add: autoDecl_eval)

text \<open>
  C1, as amended: for the identifier \<open>CamelCase\<close>, the comment block
  \<open>["//CamelCase2: camel case"]\<close> and the default flags, autoDecl returns
  \<open>["// CamelCase CamelCase2: camel case"]\<close>: no prefix with the name matches, only
  \<open>"//"\<close> is stripped. The block \<open>["// CamelCase2 camel case"]\<close> is what it returns
  for the identifier \<open>CamelCase2\<close>.
\<close>

theorem colon_case:
  "autoDecl T default_flags \<lparr>Name = ''CamelCase''\<rparr> [''//CamelCase2: camel case'']
     = Inr [''// CamelCase CamelCase2: camel case'']
   \<and> autoDecl T default_flags \<lparr>Name = ''CamelCase2''\<rparr> [''//CamelCase2: camel case'']
     = Inr [''// CamelCase2 camel case'']"
  by (simp add: autoDecl_eval)

text \<open>
  C3: on the fragments the first loop of Split produces from any sequence of runes, the
  second loop returns what the specification describes: one pass from left to right in
  which a pair of neighbours moves exactly when, in the fragments as the first loop left
  them, the left one is composed of upper-case letters and the right one begins with a
  lower-case letter, the last rune of the left fragment becoming the first of the right
  one. In particular Split on \<open>PDFLoader\<close> returns \<open>PDF\<close> and \<open>Loader\<close>.
\<close>

theorem split_disambiguation:
  "(\<exists>fs. split_fields T rs [] 0 = Inr fs
         \<and> split_upper_lower T 0 fs = Inr (spec_disambiguation T fs))
   \<and> Split T ''PDFLoader'' = Inr [''PDF'', ''Loader'']"
proof
  from split_fields_inv [of T "[]" 0 rs]
  obtain fs where fs: "split_fields T rs [] 0 = Inr fs" "fields_inv T fs"
    by (auto simp: fields_inv_Nil)
  from split_upper_lower_spec [OF fs(2)] fs(1)
  show "\<exists>fs. split_fields T rs [] 0 = Inr fs
         \<and> split_upper_lower T 0 fs = Inr (spec_disambiguation T fs)" by blast
  show "Split T ''PDFLoader'' = Inr [''PDF'', ''Loader'']"
    by (simp add: Split_def ascii_eval)
qed

text \<open>
  What autoDecl does write on an empty block and on a head line that is just the name:
  the line made from \<open>defaultCommentFormat\<close>, or under \<open>autoDescription\<close> the name
  followed by its fragments in lower case, joined by single spaces.
\<close>

lemma autoDecl_rendered_line:
  assumes "IsExported T ident"
    and "decorations = [] \<or> hd decorations = ''// '' @ Name ident
           \<or> hd decorations = ''//'' @ Name ident"
  shows "\<exists>entries. Split T (Name ident) = Inr entries \<and>
           autoDecl T fl ident decorations =
             Inr ((if autoDescription fl then
                     ''// '' @ Name ident @ '' ''
                       @ strings_Join (map (strings_ToLower T) entries) '' ''
                   else ''// '' @ Name ident @ '' missing godoc.'') # tl decorations)"
proof -
  obtain entries where entries: "Split T (Name ident) = Inr entries"
    using Split_total [of T "Name ident"] by blast
  define doc where "doc = (if autoDescription fl then
                     ''// '' @ Name ident @ '' ''
                       @ strings_Join (map (strings_ToLower T) entries) '' ''
                   else ''// '' @ Name ident @ '' missing godoc.'')"
  have doc: "autoDecl_doc T fl ident = Inr doc"
    by (simp add: autoDecl_doc_def mockDoc_def entries doc_def)
  have "autoDecl T fl ident decorations = Inr (doc # tl decorations)"
    unfolding autoDecl_exported [OF assms(1) doc]
    using assms(2) by (cases decorations) auto
  with entries show ?thesis unfolding doc_def by blast
qed

text \<open>
  C5: on an empty comment block autoDecl returns one line, and on a head line that is just
  the name it replaces that line. The specification and the README take the line from the
  \<open>--format\<close> template. autoDecl formats \<open>defaultCommentFormat\<close> and never reads
  \<open>commentFormat\<close>: with the template \<open>"// %s is not documented."\<close> the line is
  still \<open>"// CamelCase missing godoc."\<close>, in both cases.
\<close>

theorem format_flag_ignored:
  "autoDecl T \<lparr>commentFormat = ''// %s is not documented.'', autoDescription = False\<rparr>
     \<lparr>Name = ''CamelCase''\<rparr> [] = Inr [''// CamelCase missing godoc.'']
   \<and> autoDecl T \<lparr>commentFormat = ''// %s is not documented.'', autoDescription = False\<rparr>
     \<lparr>Name = ''CamelCase''\<rparr> [''// CamelCase'', ''// second line'']
       = Inr [''// CamelCase missing godoc.'', ''// second line'']"
  by (simp add: autoDecl_eval)

text \<open>
  C6: for a name that is valid UTF-8, Split returns fragments whose concatenation is the
  name: no byte is dropped, none is duplicated, and the order is kept.
\<close>

theorem Split_covers_name:
  "ValidString name \<Longrightarrow> \<exists>entries. Split T name = Inr entries \<and> concat entries = name"
  by (rule Split_concat)

theorem Split_covers_name_witness:
  "ValidString ''PDFLoader''
   \<and> (\<exists>entries. Split ascii_tables ''PDFLoader'' = Inr entries \<and> concat entries = ''PDFLoader'')"
proof -
  have h: "ValidString ''PDFLoader''" by (simp add: ascii_eval)
  from h Split_covers_name [OF h, of ascii_tables] show ?thesis by blast
qed

end
